theory Spec2Isabelle
  imports Complex_Main "HOL-Library.AList" "HOL-Library.Stream" "HOL-Library.Log_Nat"
begin

section \<open>Training utilities of \<^verbatim>\<open>utils.py\<close>: a shallow embedding\<close>

text \<open>
  The exceptions the module can raise: \<^verbatim>\<open>RuntimeError\<close> (raised by
  \<^verbatim>\<open>load_state_dict\<close> itself, by the framework's strict loader and by
  \<^verbatim>\<open>torch.cat\<close>), \<^verbatim>\<open>AssertionError\<close> (the two constructors),
  \<^verbatim>\<open>ZeroDivisionError\<close> and \<^verbatim>\<open>OverflowError\<close> (division, and the conversion of an
  integer to a float), \<^verbatim>\<open>ValueError\<close> (\<^verbatim>\<open>random.randint\<close> on an empty range),
  \<^verbatim>\<open>IndexError\<close> (a list index out of range), \<^verbatim>\<open>TypeError\<close> (iteration over a
  tensor without dimensions), \<^verbatim>\<open>SameFileError\<close> and \<^verbatim>\<open>FileNotFoundError\<close>
  (\<^verbatim>\<open>shutil.copyfile\<close>). Assertions are executed (the interpreter is not run with
  \<^verbatim>\<open>-O\<close>).
\<close>

datatype error =
  RuntimeError | AssertionError | ZeroDivisionError | OverflowError | ValueError | IndexError
  | TypeError | SameFileError | FileNotFoundError

subsection \<open>State dictionaries\<close>

text \<open>
  A tensor is its shape (what \<^verbatim>\<open>v.size()\<close> returns) and its entries. A state
  dictionary is a Python \<^verbatim>\<open>dict\<close>/\<^verbatim>\<open>OrderedDict\<close> from parameter names to
  tensors: an association list in insertion order whose keys are distinct. The assignment
  \<^verbatim>\<open>d[k] = v\<close> is \<^const>\<open>AList.update\<close>: it overwrites the value of a present
  key in place and appends an absent key. A character of a key stands for one code point
  of the Python string.
\<close>

record tensor =
  shape :: "nat list"
  entries :: "int list"

type_synonym state_dict = "(string \<times> tensor) list"

definition compile_state :: string where
  "compile_state = ''_orig_mod''"

text \<open>\<^verbatim>\<open>k.split(".")[0]\<close>: the part of \<open>k\<close> before its first dot, all of \<open>k\<close>
  when it has none.\<close>

definition split_first :: "string \<Rightarrow> string" where
  "split_first k = takeWhile (\<lambda>c. c \<noteq> CHR ''.'') k"

text \<open>The \<^verbatim>\<open>if\<close>/\<^verbatim>\<open>elif\<close>/\<^verbatim>\<open>else\<close> that chooses \<^verbatim>\<open>name\<close> (lines 63 to 68);
  \<^verbatim>\<open>k[10:]\<close> is \<open>drop 10 k\<close>.\<close>

definition rename_key :: "bool \<Rightarrow> string \<Rightarrow> string" where
  "rename_key compile_mode k =
     (let current_compile_state = split_first k in
      if compile_mode \<and> current_compile_state \<noteq> compile_state then compile_state @ ''.'' @ k
      else if \<not> compile_mode \<and> current_compile_state = compile_state then drop 10 k
      else k)"

text \<open>The loop over \<^verbatim>\<open>state_dict.items()\<close> (lines 57 to 69), with
  \<^verbatim>\<open>new_state_dict\<close> as accumulator: the check raises before the key is renamed.\<close>

fun rename_loop :: "bool \<Rightarrow> state_dict \<Rightarrow> state_dict \<Rightarrow> error + state_dict" where
  "rename_loop compile_mode [] new_state_dict = Inr new_state_dict"
| "rename_loop compile_mode ((k, v) # rest) new_state_dict =
     (let current_compile_state = split_first k in
      if compile_mode \<and> current_compile_state \<noteq> compile_state then Inl RuntimeError
      else rename_loop compile_mode rest
             (AList.update (rename_key compile_mode k) v new_state_dict))"

text \<open>The comprehension of lines 73 and 74: the entries whose key is a key of the model
  and whose size is the size of the model's tensor for that key.\<close>

definition keep_matching :: "state_dict \<Rightarrow> state_dict \<Rightarrow> state_dict" where
  "keep_matching model_state_dict state_dict =
     filter (\<lambda>(k, v). case map_of model_state_dict k of
                        None \<Rightarrow> False
                      | Some t \<Rightarrow> shape v = shape t) state_dict"

text \<open>\<^verbatim>\<open>model_state_dict.update(new_state_dict)\<close>.\<close>

definition dict_update :: "state_dict \<Rightarrow> state_dict \<Rightarrow> state_dict" where
  "dict_update d new = fold (\<lambda>(k, v). AList.update k v) new d"

text \<open>
  The framework's \<^verbatim>\<open>model.load_state_dict(d)\<close> in its default strict mode, on a
  model given by its own state dictionary: it raises unless \<open>d\<close> has exactly the model's
  keys, each with the model's size, and then copies each tensor of \<open>d\<close> into the
  parameter of that name.
\<close>

definition module_load_state_dict :: "state_dict \<Rightarrow> state_dict \<Rightarrow> error + state_dict" where
  "module_load_state_dict model d =
     (if set (map fst d) = set (map fst model) \<and>
         list_all (\<lambda>(k, t). case map_of d k of None \<Rightarrow> False | Some v \<Rightarrow> shape v = shape t) model
      then Inr (map (\<lambda>(k, t). (k, case map_of d k of None \<Rightarrow> t | Some v \<Rightarrow> v)) model)
      else Inl RuntimeError)"

text \<open>\<^verbatim>\<open>load_state_dict\<close>: the model is given by its state dictionary, and the
  result is the state dictionary of the model after loading.\<close>

definition load_state_dict :: "state_dict \<Rightarrow> bool \<Rightarrow> state_dict \<Rightarrow> error + state_dict" where
  "load_state_dict model compile_mode state_dict =
     (let model_state_dict = model in
      case rename_loop compile_mode state_dict [] of
        Inl e \<Rightarrow> Inl e
      | Inr state_dict' \<Rightarrow>
          (let new_state_dict = keep_matching model_state_dict state_dict';
               model_state_dict' = dict_update model_state_dict new_state_dict
           in module_load_state_dict model model_state_dict'))"

text \<open>The example of the specification: a target with one tensor of shape 3, a source
  with a tensor of that name and shape and one more; and a checkpoint of a compiled model.\<close>

definition example_model :: state_dict where
  "example_model = [(''a'', \<lparr>shape = [3], entries = [0, 0, 0]\<rparr>)]"

definition example_source :: state_dict where
  "example_source = [(''a'', \<lparr>shape = [3], entries = [1, 2, 3]\<rparr>),
                     (''b'', \<lparr>shape = [5], entries = [1, 2, 3, 4, 5]\<rparr>)]"

definition compiled_model :: state_dict where
  "compiled_model = [(''_orig_mod.a'', \<lparr>shape = [2], entries = [0, 0]\<rparr>)]"

definition compiled_source :: state_dict where
  "compiled_source = [(''_orig_mod.a'', \<lparr>shape = [2], entries = [7, 8]\<rparr>)]"


subsection \<open>\<^verbatim>\<open>save_checkpoint\<close>\<close>


text \<open>
  The file system maps a path to the content of the file there; \<open>'c\<close> is the type of
  serialized states, and two paths name the same file exactly when they are the same
  string. The two input/output calls of \<^verbatim>\<open>save_checkpoint\<close> are kept as values, so that
  the calls a run completes can be counted. \<^verbatim>\<open>torch.save\<close> stores the state at the
  path (the directory is taken to exist and to be writable). \<^verbatim>\<open>shutil.copyfile\<close>
  raises \<^verbatim>\<open>SameFileError\<close> when source and destination are the same file, before it
  opens either, and \<^verbatim>\<open>FileNotFoundError\<close> when the source is missing; otherwise it
  stores the content of the source at the destination.
\<close>

type_synonym 'c filesystem = "string \<Rightarrow> 'c option"

datatype 'c io_call = TorchSave 'c string | CopyFile string string

fun run_call :: "'c filesystem \<Rightarrow> 'c io_call \<Rightarrow> error + 'c filesystem" where
  "run_call fs (TorchSave obj path) = Inr (fs(path \<mapsto> obj))"
| "run_call fs (CopyFile src dst) =
     (if src = dst then Inl SameFileError
      else case fs src of None \<Rightarrow> Inl FileNotFoundError | Some c \<Rightarrow> Inr (fs(dst \<mapsto> c)))"

text \<open>Calls made one after the other: the first that raises ends the run, and the calls
  after it are not made. The result is the file system as the run leaves it, the calls
  completed, and the exception if there is one.\<close>

fun run_calls ::
  "'c filesystem \<Rightarrow> 'c io_call list \<Rightarrow> 'c io_call list
     \<Rightarrow> 'c filesystem \<times> 'c io_call list \<times> error option" where
  "run_calls fs completed [] = (fs, completed, None)"
| "run_calls fs completed (c # cs) =
     (case run_call fs c of
        Inl e \<Rightarrow> (fs, completed, Some e)
      | Inr fs' \<Rightarrow> run_calls fs' (completed @ [c]) cs)"



definition is_copy :: "'c io_call \<Rightarrow> bool" where
  "is_copy c = (case c of CopyFile src dst \<Rightarrow> True | TorchSave obj path \<Rightarrow> False)"

subsection \<open>\<^verbatim>\<open>DecayLR\<close> and \<^verbatim>\<open>ReplayBuffer\<close>: construction\<close>

record DecayLR =
  epochs :: int
  offset :: int
  decay_epochs :: int

definition DecayLR_init :: "int \<Rightarrow> int \<Rightarrow> int \<Rightarrow> error + DecayLR" where
  "DecayLR_init epochs' offset' decay_epochs' =
     (let epoch_flag = epochs' - decay_epochs' in
      if epoch_flag > 0
      then Inr \<lparr>epochs = epochs', offset = offset', decay_epochs = decay_epochs'\<rparr>
      else Inl AssertionError)"

text \<open>The buffer holds the samples it was given, of a type \<open>'a\<close> that
  \<^verbatim>\<open>push_and_pop\<close> takes to be the tensors.\<close>

record 'a ReplayBuffer =
  max_size :: int
  data :: "'a list"

definition ReplayBuffer_init :: "int \<Rightarrow> error + 'a ReplayBuffer" where
  "ReplayBuffer_init max_size' =
     (if max_size' > 0 then Inr \<lparr>max_size = max_size', data = []\<rparr> else Inl AssertionError)"

subsection \<open>\<^verbatim>\<open>ReplayBuffer.push_and_pop\<close>\<close>

text \<open>
  The generator of the \<^verbatim>\<open>random\<close> module is a stream of raw draws, each call taking
  the next one. \<^verbatim>\<open>random.uniform(0, 1)\<close> is \<^verbatim>\<open>0 + (1 - 0) * random()\<close>, a multiple
  of \<open>2\<^sup>-\<^sup>5\<^sup>3\<close> in \<open>[0, 1)\<close>; \<^verbatim>\<open>random.randint(a, b)\<close> is an integer of
  \<open>[a, b]\<close> and raises \<^verbatim>\<open>ValueError\<close> when the range is empty. Every value of
  either range is the result for some stream.
\<close>

type_synonym rng = "nat stream"

definition uniform_0_1 :: "rng \<Rightarrow> rat \<times> rng" where
  "uniform_0_1 g = (of_nat (shd g mod 2 ^ 53) / 2 ^ 53, stl g)"

definition randint :: "int \<Rightarrow> int \<Rightarrow> rng \<Rightarrow> (error + int) \<times> rng" where
  "randint a b g =
     (if b < a then (Inl ValueError, g)
      else (Inr (a + int (shd g) mod (b - a + 1)), stl g))"

text \<open>Reading and writing a Python list at an integer index: an index from \<open>-len\<close>
  up to \<open>-1\<close> counts from the end, and an index outside \<open>[-len, len)\<close> raises
  \<^verbatim>\<open>IndexError\<close>.\<close>

definition list_position :: "nat \<Rightarrow> int \<Rightarrow> nat option" where
  "list_position len i =
     (if 0 \<le> i \<and> i < int len then Some (nat i)
      else if - int len \<le> i \<and> i < 0 then Some (nat (int len + i))
      else None)"

definition list_get :: "'a list \<Rightarrow> int \<Rightarrow> error + 'a" where
  "list_get xs i =
     (case list_position (length xs) i of None \<Rightarrow> Inl IndexError | Some j \<Rightarrow> Inr (xs ! j))"

definition list_set :: "'a list \<Rightarrow> int \<Rightarrow> 'a \<Rightarrow> error + 'a list" where
  "list_set xs i v =
     (case list_position (length xs) i of None \<Rightarrow> Inl IndexError | Some j \<Rightarrow> Inr (xs[j := v]))"

text \<open>
  Three operations on tensors, each a shape and the entries in row-major order (no element
  type and no device, so neither the promotion of types nor a mismatch of devices).
  Iterating over a tensor is \<^verbatim>\<open>unbind(0)\<close>: it raises \<^verbatim>\<open>TypeError\<close> on a tensor without
  dimensions and yields the slices along the first dimension otherwise.
  \<^verbatim>\<open>torch.unsqueeze(t, 0)\<close> puts a dimension of size 1 in front.
  \<^verbatim>\<open>torch.cat\<close> joins tensors along the first dimension: it raises
  \<^verbatim>\<open>RuntimeError\<close> on the empty list, on a tensor without dimensions and on tensors
  whose shapes differ after the first dimension; tensors of shape \<open>[0]\<close> are left out,
  and the result is such a tensor when nothing else was given.
\<close>

definition unbind :: "tensor \<Rightarrow> error + tensor list" where
  "unbind t =
     (case shape t of
        [] \<Rightarrow> Inl TypeError
      | b # s \<Rightarrow>
          Inr (map (\<lambda>i. \<lparr>shape = s,
                           entries = take (prod_list s) (drop (i * prod_list s) (entries t))\<rparr>)
                 [0..<b]))"

definition unsqueeze :: "tensor \<Rightarrow> tensor" where
  "unsqueeze t = t\<lparr>shape := 1 # shape t\<rparr>"

definition torch_cat :: "tensor list \<Rightarrow> error + tensor" where
  "torch_cat tensors =
     (if tensors = [] then Inl RuntimeError
      else case filter (\<lambda>t. shape t \<noteq> [0]) tensors of
             [] \<Rightarrow> Inr \<lparr>shape = [0], entries = []\<rparr>
           | t # ts \<Rightarrow>
               if list_all (\<lambda>u. shape u \<noteq> [] \<and> tl (shape u) = tl (shape t)) (t # ts)
               then Inr \<lparr>shape = sum_list (map (\<lambda>u. hd (shape u)) (t # ts)) # tl (shape t),
                         entries = concat (map entries (t # ts))\<rparr>
               else Inl RuntimeError)"

text \<open>The loop over the samples of the batch, with \<^verbatim>\<open>to_return\<close> as accumulator.
  The buffer and the generator are returned as the call leaves them, also when it
  raises; \<^verbatim>\<open>clone()\<close> is the identity on values.\<close>

fun push_and_pop_loop ::
  "tensor ReplayBuffer \<Rightarrow> rng \<Rightarrow> tensor list \<Rightarrow> tensor list
     \<Rightarrow> tensor ReplayBuffer \<times> rng \<times> (error + tensor list)" where
  "push_and_pop_loop self g [] to_return = (self, g, Inr to_return)"
| "push_and_pop_loop self g (sample # rest) to_return =
     (let element = unsqueeze sample in
      if int (length (data self)) < max_size self
      then push_and_pop_loop (self\<lparr>data := data self @ [element]\<rparr>) g rest
             (to_return @ [element])
      else
        (let (u, g1) = uniform_0_1 g in
         if u > 1 / 2
         then
           (let (r, g2) = randint 0 (max_size self - 1) g1 in
            case r of
              Inl e \<Rightarrow> (self, g2, Inl e)
            | Inr i \<Rightarrow>
                (case list_get (data self) i of
                   Inl e \<Rightarrow> (self, g2, Inl e)
                 | Inr stored \<Rightarrow>
                     (case list_set (data self) i element of
                        Inl e \<Rightarrow> (self, g2, Inl e)
                      | Inr data' \<Rightarrow>
                          push_and_pop_loop (self\<lparr>data := data'\<rparr>) g2 rest
                            (to_return @ [stored]))))
         else push_and_pop_loop self g1 rest (to_return @ [element])))"

definition push_and_pop ::
  "tensor ReplayBuffer \<Rightarrow> rng \<Rightarrow> tensor \<Rightarrow> tensor ReplayBuffer \<times> rng \<times> (error + tensor)" where
  "push_and_pop self g batch =
     (case unbind batch of
        Inl e \<Rightarrow> (self, g, Inl e)
      | Inr samples \<Rightarrow>
          (case push_and_pop_loop self g samples [] of
             (self', g', Inl e) \<Rightarrow> (self', g', Inl e)
           | (self', g', Inr to_return) \<Rightarrow> (self', g', torch_cat to_return)))"

text \<open>The buffers a program can hold: made by the constructor, then passed through any
  number of calls of \<^verbatim>\<open>push_and_pop\<close>, whatever the batches and the random draws.\<close>

inductive reachable :: "int \<Rightarrow> tensor ReplayBuffer \<Rightarrow> bool" where
  constructed: "ReplayBuffer_init m = Inr self \<Longrightarrow> reachable m self"
| called: "reachable m self \<Longrightarrow> push_and_pop self g batch = (self', g', out)
             \<Longrightarrow> reachable m self'"


subsection \<open>Floating-point numbers\<close>

text \<open>
  A Python \<^verbatim>\<open>float\<close> is an IEEE 754 binary64 number. A finite one is modelled by its
  value, a rational number, and an operation by the exact result rounded to the nearest
  such number, ties going to the one with an even significand. The numbers from \<open>2\<^sup>e\<close>
  up to \<open>2\<^sup>e\<^sup>+\<^sup>1\<close> are \<open>2\<^sup>e\<^sup>-\<^sup>5\<^sup>2\<close> apart, and those below \<open>2\<^sup>-\<^sup>1\<^sup>0\<^sup>2\<^sup>2\<close> are
  \<open>2\<^sup>-\<^sup>1\<^sup>0\<^sup>7\<^sup>4\<close> apart; the largest is \<open>(2\<^sup>5\<^sup>3 - 1) * 2\<^sup>9\<^sup>7\<^sup>1\<close>, and a result that rounds
  beyond it is out of range.
\<close>

definition round_half_even :: "rat \<Rightarrow> int" where
  "round_half_even t =
     (let f = \<lfloor>t\<rfloor>; r = t - of_int f
      in if r < 1 / 2 then f else if 1 / 2 < r then f + 1 else if even f then f else f + 1)"

text \<open>The integer \<open>e\<close> with \<open>2\<^sup>e \<le> x < 2\<^sup>e\<^sup>+\<^sup>1\<close>, for a positive \<open>x\<close>.\<close>

definition ilog2 :: "rat \<Rightarrow> int" where
  "ilog2 x =
     (let (p, q) = quotient_of x; d = bitlen p - bitlen q
      in if 2 powi d \<le> x then d else d - 1)"

definition ulp :: "rat \<Rightarrow> rat" where
  "ulp x = 2 powi (max (ilog2 \<bar>x\<bar>) (- 1022) - 52)"

definition round_double :: "rat \<Rightarrow> rat" where
  "round_double x = (if x = 0 then 0 else of_int (round_half_even (x / ulp x)) * ulp x)"

text \<open>
  \<^verbatim>\<open>a / b\<close> on two Python integers: the exact quotient, correctly rounded;
  \<^verbatim>\<open>ZeroDivisionError\<close> for a zero divisor and \<^verbatim>\<open>OverflowError\<close> for a result that
  is out of range.
\<close>

definition max_double :: rat where
  "max_double = (2 ^ 53 - 1) * 2 ^ 971"

definition true_divide :: "int \<Rightarrow> int \<Rightarrow> error + rat" where
  "true_divide a b =
     (if b = 0 then Inl ZeroDivisionError
      else let q = round_double (of_int a / of_int b)
           in if max_double < \<bar>q\<bar> then Inl OverflowError else Inr q)"

text \<open>\<^verbatim>\<open>x - y\<close> on two finite floats whose rounded difference is in range, as
  that of \<^verbatim>\<open>1.0 - q\<close> is for every finite \<open>q\<close> that is not negative.\<close>

definition float_sub :: "rat \<Rightarrow> rat \<Rightarrow> rat" where
  "float_sub x y = round_double (x - y)"

subsection \<open>\<^verbatim>\<open>DecayLR.step\<close>\<close>

definition step :: "DecayLR \<Rightarrow> int \<Rightarrow> error + rat" where
  "step self epoch =
     (case true_divide (max 0 (epoch + offset self - decay_epochs self))
             (epochs self - decay_epochs self) of
        Inl e \<Rightarrow> Inl e
      | Inr q \<Rightarrow> Inr (float_sub 1 q))"

subsection \<open>Python numbers\<close>

text \<open>
  The numbers \<^verbatim>\<open>update\<close> is given are Python integers and floats. A float is a finite
  number, an infinity or a NaN; the sign of a zero is not kept, since no operation below
  tells the two zeros apart. The result of a float operation on finite operands is the
  exact result rounded, an infinity when that is out of range.
\<close>

datatype pyfloat = Finite rat | PosInf | NegInf | NaN

datatype number = PyInt int | PyFloat pyfloat

definition fl :: "rat \<Rightarrow> pyfloat" where
  "fl x =
     (let q = round_double x
      in if max_double < q then PosInf else if q < - max_double then NegInf else Finite q)"

definition float_sign :: "pyfloat \<Rightarrow> int" where
  "float_sign x =
     (case x of Finite r \<Rightarrow> (if 0 < r then 1 else if r < 0 then - 1 else 0)
              | PosInf \<Rightarrow> 1 | NegInf \<Rightarrow> - 1 | NaN \<Rightarrow> 0)"

definition signed_inf :: "int \<Rightarrow> pyfloat" where
  "signed_inf sg = (if 0 < sg then PosInf else if sg < 0 then NegInf else NaN)"

text \<open>IEEE multiplication, addition and division; the division is only used with a
  divisor that is not zero.\<close>

fun float_mul :: "pyfloat \<Rightarrow> pyfloat \<Rightarrow> pyfloat" where
  "float_mul NaN y = NaN"
| "float_mul x NaN = NaN"
| "float_mul (Finite a) (Finite b) = fl (a * b)"
| "float_mul x y = signed_inf (float_sign x * float_sign y)"

fun float_add :: "pyfloat \<Rightarrow> pyfloat \<Rightarrow> pyfloat" where
  "float_add NaN y = NaN"
| "float_add x NaN = NaN"
| "float_add (Finite a) (Finite b) = fl (a + b)"
| "float_add (Finite a) y = y"
| "float_add x (Finite b) = x"
| "float_add x y = (if x = y then x else NaN)"

fun float_div :: "pyfloat \<Rightarrow> pyfloat \<Rightarrow> pyfloat" where
  "float_div NaN y = NaN"
| "float_div x NaN = NaN"
| "float_div (Finite a) (Finite b) = fl (a / b)"
| "float_div (Finite a) y = Finite 0"
| "float_div x (Finite b) = signed_inf (float_sign x * float_sign (Finite b))"
| "float_div x y = NaN"

text \<open>The conversion of an operand to a float: an integer is rounded, and raises
  \<^verbatim>\<open>OverflowError\<close> when it is out of range.\<close>

definition to_float :: "number \<Rightarrow> error + pyfloat" where
  "to_float x =
     (case x of
        PyFloat f \<Rightarrow> Inr f
      | PyInt i \<Rightarrow>
          (let q = round_double (of_int i)
           in if max_double < \<bar>q\<bar> then Inl OverflowError else Inr (Finite q)))"

text \<open>\<^verbatim>\<open>a * b\<close>, \<^verbatim>\<open>a + b\<close> and \<^verbatim>\<open>a / b\<close>: exact on two integers (the quotient is
  the float of \<open>true_divide\<close>); otherwise both operands are converted to floats first,
  and the division then raises \<^verbatim>\<open>ZeroDivisionError\<close> on a zero divisor.\<close>

definition py_mul :: "number \<Rightarrow> number \<Rightarrow> error + number" where
  "py_mul a b =
     (case (a, b) of
        (PyInt x, PyInt y) \<Rightarrow> Inr (PyInt (x * y))
      | _ \<Rightarrow> (case to_float a of Inl e \<Rightarrow> Inl e
               | Inr fa \<Rightarrow> (case to_float b of Inl e \<Rightarrow> Inl e
                            | Inr fb \<Rightarrow> Inr (PyFloat (float_mul fa fb)))))"

definition py_add :: "number \<Rightarrow> number \<Rightarrow> error + number" where
  "py_add a b =
     (case (a, b) of
        (PyInt x, PyInt y) \<Rightarrow> Inr (PyInt (x + y))
      | _ \<Rightarrow> (case to_float a of Inl e \<Rightarrow> Inl e
               | Inr fa \<Rightarrow> (case to_float b of Inl e \<Rightarrow> Inl e
                            | Inr fb \<Rightarrow> Inr (PyFloat (float_add fa fb)))))"

definition py_truediv :: "number \<Rightarrow> number \<Rightarrow> error + number" where
  "py_truediv a b =
     (case (a, b) of
        (PyInt x, PyInt y) \<Rightarrow>
          (case true_divide x y of Inl e \<Rightarrow> Inl e | Inr q \<Rightarrow> Inr (PyFloat (Finite q)))
      | _ \<Rightarrow> (case to_float a of Inl e \<Rightarrow> Inl e
               | Inr fa \<Rightarrow> (case to_float b of Inl e \<Rightarrow> Inl e
                            | Inr fb \<Rightarrow> if fb = Finite 0 then Inl ZeroDivisionError
                                       else Inr (PyFloat (float_div fa fb)))))"


subsection \<open>\<^verbatim>\<open>AverageMeter\<close>\<close>

text \<open>
  The four numeric fields of the meter (its name and its formats play no part in
  \<^verbatim>\<open>update\<close>). \<^verbatim>\<open>update\<close> assigns field after field, so an operation that raises
  leaves the fields before it assigned: the meter is returned as the call leaves it, with
  the exception if there is one.
\<close>

record AverageMeter =
  val :: number
  avg :: number
  sum' :: number
  count :: number


definition update :: "AverageMeter \<Rightarrow> number \<Rightarrow> number \<Rightarrow> AverageMeter \<times> error option" where
  "update self val' n =
     (let self1 = self\<lparr>val := val'\<rparr> in
      case py_mul val' n of
        Inl e \<Rightarrow> (self1, Some e)
      | Inr product \<Rightarrow>
          (case py_add (sum' self1) product of
             Inl e \<Rightarrow> (self1, Some e)
           | Inr s \<Rightarrow>
               (let self2 = self1\<lparr>sum' := s\<rparr> in
                case py_add (count self2) n of
                  Inl e \<Rightarrow> (self2, Some e)
                | Inr c \<Rightarrow>
                    (let self3 = self2\<lparr>count := c\<rparr> in
                     case py_truediv (sum' self3) (count self3) of
                       Inl e \<Rightarrow> (self3, Some e)
                     | Inr a \<Rightarrow> (self3\<lparr>avg := a\<rparr>, None)))))"


section \<open>Properties of \<^verbatim>\<open>load_state_dict\<close>\<close>


lemma update_fresh: "k \<notin> fst ` set al \<Longrightarrow> AList.update k v al = al @ [(k, v)]"
  by (induction al) auto

lemma fold_update_distinct:
  "distinct (map fst (acc @ src)) \<Longrightarrow> fold (\<lambda>(k, v). AList.update k v) src acc = acc @ src"
proof (induction src arbitrary: acc)
  case Nil
  then show ?case by simp
next
  case (Cons p src)
  obtain k v where p: "p = (k, v)" by (cases p)
  from Cons.prems have fresh: "k \<notin> fst ` set acc" by (auto simp: p)
  from Cons.prems have "distinct (map fst ((acc @ [(k, v)]) @ src))" by (auto simp: p)
  from Cons.IH[OF this] show ?case by (simp add: p update_fresh[OF fresh])
qed

lemma rename_loop_fold:
  "\<forall>k\<in>set (map fst src). \<not> (cm \<and> split_first k \<noteq> compile_state) \<Longrightarrow>
   rename_loop cm src acc = Inr (fold (\<lambda>(k, v). AList.update (rename_key cm k) v) src acc)"
  by (induction src arbitrary: acc) (auto simp: Let_def)

lemma rename_loop_raises:
  "\<exists>k\<in>set (map fst src). split_first k \<noteq> compile_state \<Longrightarrow>
   rename_loop True src acc = Inl RuntimeError"
proof (induction src arbitrary: acc)
  case Nil
  then show ?case by simp
next
  case (Cons p src)
  obtain k v where p: "p = (k, v)" by (cases p)
  show ?case
  proof (cases "split_first k \<noteq> compile_state")
    case True
    then show ?thesis by (simp add: p)
  next
    case False
    with Cons.prems have "\<exists>k\<in>set (map fst src). split_first k \<noteq> compile_state"
      by (auto simp: p)
    from Cons.IH[OF this] False show ?thesis by (simp add: p)
  qed
qed

lemma map_of_dict_update:
  "distinct (map fst new) \<Longrightarrow> map_of (dict_update d new) = map_of d ++ map_of new"
  unfolding dict_update_def
proof (induction new arbitrary: d)
  case Nil
  then show ?case by simp
next
  case (Cons p new)
  obtain k v where p: "p = (k, v)" by (cases p)
  from Cons.prems have k: "k \<notin> dom (map_of new)" and d: "distinct (map fst new)"
    by (auto simp: p dom_map_of_conv_image_fst)
  show ?case using Cons.IH[OF d, of "AList.update k v d"] k
    by (auto simp: p update_conv' fun_eq_iff map_add_def split: option.splits)
qed

lemma keys_dict_update:
  "set (map fst new) \<subseteq> set (map fst d) \<Longrightarrow> map fst (dict_update d new) = map fst d"
  unfolding dict_update_def
proof (induction new arbitrary: d)
  case Nil
  then show ?case by simp
next
  case (Cons p new)
  obtain k v where p: "p = (k, v)" by (cases p)
  from Cons.prems have k: "k \<in> set (map fst d)" by (simp add: p)
  then have keys: "map fst (AList.update k v d) = map fst d" by (simp add: update_keys)
  with Cons.prems have "set (map fst new) \<subseteq> set (map fst (AList.update k v d))" by simp
  from Cons.IH[OF this] keys show ?case by (simp add: p)
qed

lemma distinct_keep_matching:
  "distinct (map fst sd) \<Longrightarrow> distinct (map fst (keep_matching m sd))"
  unfolding keep_matching_def by (simp add: distinct_map_filter)

lemma keys_keep_matching: "set (map fst (keep_matching m sd)) \<subseteq> set (map fst m)"
  unfolding keep_matching_def
  by (auto split: option.splits dest: map_of_SomeD) (metis fst_conv image_eqI map_of_SomeD)

lemma map_of_keep_matching:
  "distinct (map fst sd) \<Longrightarrow>
   map_of (keep_matching m sd) k =
     (case map_of sd k of None \<Rightarrow> None
      | Some v \<Rightarrow> (case map_of m k of None \<Rightarrow> None
                   | Some t \<Rightarrow> if shape v = shape t then Some v else None))"
proof (induction sd)
  case Nil
  then show ?case by (simp add: keep_matching_def)
next
  case (Cons p sd)
  obtain k' v' where p: "p = (k', v')" by (cases p)
  from Cons.prems have d: "distinct (map fst sd)" and fresh: "map_of sd k' = None"
    by (auto simp: p map_of_eq_None_iff)
  have tl: "keep_matching m ((k', v') # sd) =
     (if (case map_of m k' of None \<Rightarrow> False | Some t \<Rightarrow> shape v' = shape t)
      then (k', v') # keep_matching m sd else keep_matching m sd)"
    by (simp add: keep_matching_def)
  show ?case
  proof (cases "k = k'")
    case True
    with fresh Cons.IH[OF d] show ?thesis
      by (auto simp: tl p split: option.splits)
  next
    case False
    with Cons.IH[OF d] show ?thesis
      by (auto simp: tl p split: option.splits)
  qed
qed


lemma rename_loop_distinct:
  "distinct (map fst acc) \<Longrightarrow> rename_loop cm sd acc = Inr r \<Longrightarrow> distinct (map fst r)"
proof (induction sd arbitrary: acc)
  case Nil
  then show ?case by simp
next
  case (Cons p sd)
  obtain k v where p: "p = (k, v)" by (cases p)
  from Cons.prems(2) have ok: "\<not> (cm \<and> split_first k \<noteq> compile_state)"
    and rest: "rename_loop cm sd (AList.update (rename_key cm k) v acc) = Inr r"
    by (auto simp: p Let_def split: if_splits)
  from Cons.prems(1) have "distinct (map fst (AList.update (rename_key cm k) v acc))"
    by (rule distinct_update)
  from Cons.IH[OF this rest] show ?case .
qed

lemma map_of_map_values:
  "map_of (map (\<lambda>(k, t). (k, f k t)) al) k = (case map_of al k of None \<Rightarrow> None | Some t \<Rightarrow> Some (f k t))"
  by (induction al) auto

lemma load_after_rename:
  assumes dm: "distinct (map fst model)"
    and rn: "rename_loop cm sd [] = Inr sd'"
  shows "\<exists>model'. load_state_dict model cm sd = Inr model' \<and> map fst model' = map fst model \<and>
           (\<forall>k t. map_of model k = Some t \<longrightarrow>
              map_of model' k = Some (case map_of sd' k of None \<Rightarrow> t
                                      | Some v \<Rightarrow> if shape v = shape t then v else t))"
proof -
  define new where "new = keep_matching model sd'"
  define merged where "merged = dict_update model new"
  from rn have dsd: "distinct (map fst sd')"
    using rename_loop_distinct[of "[]" cm sd sd'] by simp
  have dnew: "distinct (map fst new)"
    unfolding new_def using dsd by (rule distinct_keep_matching)
  have knew: "set (map fst new) \<subseteq> set (map fst model)"
    unfolding new_def by (rule keys_keep_matching)
  have keys: "map fst merged = map fst model"
    unfolding merged_def using knew by (rule keys_dict_update)
  have look: "map_of merged k = Some (case map_of sd' k of None \<Rightarrow> t
                 | Some v \<Rightarrow> if shape v = shape t then v else t)"
    if "map_of model k = Some t" for k t
  proof -
    have m: "map_of merged k = (map_of model ++ map_of new) k"
      unfolding merged_def by (simp add: map_of_dict_update[OF dnew])
    have n: "map_of new k = (case map_of sd' k of None \<Rightarrow> None
                 | Some v \<Rightarrow> if shape v = shape t then Some v else None)"
      unfolding new_def using that by (simp add: map_of_keep_matching[OF dsd] split: option.splits)
    show ?thesis using that
      by (simp add: m n map_add_def split: option.splits)
  qed
  have shapes: "list_all (\<lambda>(k, t). case map_of merged k of None \<Rightarrow> False
                                      | Some v \<Rightarrow> shape v = shape t) model"
  proof -
    have "case map_of merged k of None \<Rightarrow> False | Some v \<Rightarrow> shape v = shape t"
      if "(k, t) \<in> set model" for k t
    proof -
      from that dm have "map_of model k = Some t" by simp
      from look[OF this] show ?thesis by (simp split: option.splits)
    qed
    then show ?thesis by (auto simp: list_all_iff)
  qed
  define model' where
    "model' = map (\<lambda>(k, t). (k, case map_of merged k of None \<Rightarrow> t | Some v \<Rightarrow> v)) model"
  from keys have kset: "set (map fst merged) = set (map fst model)" by simp
  have "module_load_state_dict model merged = Inr model'"
    unfolding module_load_state_dict_def model'_def using kset shapes by simp
  then have load: "load_state_dict model cm sd = Inr model'"
    by (simp add: load_state_dict_def rn merged_def new_def)
  have k': "map fst model' = map fst model"
    by (simp add: model'_def case_prod_unfold comp_def)
  have "map_of model' k = Some (case map_of sd' k of None \<Rightarrow> t
                 | Some v \<Rightarrow> if shape v = shape t then v else t)"
    if "map_of model k = Some t" for k t
    using that look[OF that] by (simp add: model'_def map_of_map_values)
  with load k' show ?thesis by blast
qed

lemma rename_key_uncompiled:
  "split_first k \<noteq> compile_state \<Longrightarrow> rename_key False k = k"
  by (simp add: rename_key_def)

lemma rename_loop_uncompiled:
  assumes "distinct (map fst sd)"
    and "\<forall>k\<in>set (map fst sd). split_first k \<noteq> compile_state"
  shows "rename_loop False sd [] = Inr sd"
proof -
  have "fold (\<lambda>(k, v). AList.update (rename_key False k) v) sd acc =
        fold (\<lambda>(k, v). AList.update k v) sd acc" for acc
    using assms(2)
    by (intro fold_cong) (auto simp: rename_key_uncompiled)
  then show ?thesis
    using rename_loop_fold[of sd False "[]"] fold_update_distinct[of "[]" sd] assms(1)
    by simp
qed

text \<open>Claim C1. With \<open>compile_mode = False\<close> and a source none of whose keys has the
  marker as its first token, every key is left unchanged (the renamed dictionary is the
  source), the load succeeds, the model keeps its keys, and each key of the model holds the
  source's tensor when the source has that key with the model's shape, and its old tensor
  otherwise. Source keys that the model lacks are dropped: the result has the model's keys
  only.\<close>

theorem load_state_dict_uncompiled:
  assumes "distinct (map fst model)" and "distinct (map fst sd)"
    and "\<forall>k\<in>set (map fst sd). split_first k \<noteq> compile_state"
  shows "(\<forall>k\<in>set (map fst sd). rename_key False k = k) \<and>
         rename_loop False sd [] = Inr sd \<and>
         (\<exists>model'. load_state_dict model False sd = Inr model' \<and>
            map fst model' = map fst model \<and>
            (\<forall>k t. map_of model k = Some t \<longrightarrow>
               map_of model' k = Some (case map_of sd k of None \<Rightarrow> t
                                       | Some v \<Rightarrow> if shape v = shape t then v else t)))"
  using assms rename_loop_uncompiled[OF assms(2,3)]
    load_after_rename[OF assms(1) rename_loop_uncompiled[OF assms(2,3)]]
  by (simp add: rename_key_uncompiled)


lemma example_load:
  "load_state_dict example_model False example_source =
     Inr [(''a'', \<lparr>shape = [3], entries = [1, 2, 3]\<rparr>)]"
  by (simp add: load_state_dict_def example_model_def example_source_def Let_def
      split_first_def compile_state_def rename_key_def keep_matching_def dict_update_def
      module_load_state_dict_def)

theorem load_state_dict_uncompiled_witness:
  "distinct (map fst example_model) \<and> distinct (map fst example_source) \<and>
   split_first ''a'' \<noteq> compile_state \<and> split_first ''b'' \<noteq> compile_state \<and>
   rename_key False ''a'' = ''a'' \<and> rename_key False ''b'' = ''b'' \<and>
   rename_loop False example_source [] = Inr example_source \<and>
   (\<exists>model'. load_state_dict example_model False example_source = Inr model' \<and>
      map fst model' = [''a''] \<and>
      map_of model' ''a'' = Some \<lparr>shape = [3], entries = [1, 2, 3]\<rparr> \<and>
      map_of model' ''b'' = None)"
proof -
  have d1: "distinct (map fst example_model)" by (simp add: example_model_def)
  have d2: "distinct (map fst example_source)" by (simp add: example_source_def)
  have np: "\<forall>k\<in>set (map fst example_source). split_first k \<noteq> compile_state"
    by (simp add: example_source_def split_first_def compile_state_def)
  note inst = load_state_dict_uncompiled[OF d1 d2 np]
  from inst obtain model' where
    l: "load_state_dict example_model False example_source = Inr model'"
    and k: "map fst model' = map fst example_model"
    and v: "\<forall>k t. map_of example_model k = Some t \<longrightarrow>
         map_of model' k = Some (case map_of example_source k of None \<Rightarrow> t
                                 | Some v \<Rightarrow> if shape v = shape t then v else t)"
    by blast
  from k have k': "map fst model' = [''a'']" by (simp add: example_model_def)
  from v have a: "map_of model' ''a'' = Some \<lparr>shape = [3], entries = [1, 2, 3]\<rparr>"
    by (simp add: example_model_def example_source_def)
  from k' have b: "map_of model' ''b'' = None"
    by (simp add: map_of_eq_None_iff flip: set_map)
  from inst have r: "rename_key False ''a'' = ''a'' \<and> rename_key False ''b'' = ''b'' \<and>
      rename_loop False example_source [] = Inr example_source"
    by (simp add: example_source_def)
  from np have n: "split_first ''a'' \<noteq> compile_state \<and> split_first ''b'' \<noteq> compile_state"
    by (simp add: example_source_def)
  from l k' a b have "\<exists>model'. load_state_dict example_model False example_source = Inr model' \<and>
      map fst model' = [''a''] \<and>
      map_of model' ''a'' = Some \<lparr>shape = [3], entries = [1, 2, 3]\<rparr> \<and>
      map_of model' ''b'' = None"
    by (intro exI[of _ model'] conjI)
  with d1 d2 n r show ?thesis by (intro conjI) (elim conjE, assumption)+
qed

text \<open>Claim C2. With \<open>compile_mode = True\<close>, a source with at least one key whose
  first token is not the marker makes \<open>load_state_dict\<close> raise \<^verbatim>\<open>RuntimeError\<close>.\<close>

theorem load_state_dict_compiled_mismatch:
  "\<exists>k\<in>set (map fst sd). split_first k \<noteq> compile_state \<Longrightarrow>
   load_state_dict model True sd = Inl RuntimeError"
  by (simp add: load_state_dict_def rename_loop_raises)

theorem load_state_dict_compiled_mismatch_witness:
  "(\<exists>k\<in>set (map fst (compiled_source @ example_source)). split_first k \<noteq> compile_state) \<and>
   load_state_dict compiled_model True (compiled_source @ example_source) = Inl RuntimeError"
proof -
  have h: "\<exists>k\<in>set (map fst (compiled_source @ example_source)). split_first k \<noteq> compile_state"
    by (simp add: compiled_source_def example_source_def split_first_def compile_state_def)
  from load_state_dict_compiled_mismatch[OF h] h show ?thesis by blast
qed

lemma rename_loop_compiled_keys:
  "rename_loop True sd acc = Inr r \<Longrightarrow> \<forall>k\<in>set (map fst sd). split_first k = compile_state"
  using rename_loop_raises[of sd acc] by auto

lemma rename_key_compiled: "split_first k = compile_state \<Longrightarrow> rename_key True k = k"
  by (simp add: rename_key_def)

lemma load_state_dict_InrD:
  "load_state_dict model cm sd = Inr model' \<Longrightarrow> \<exists>sd'. rename_loop cm sd [] = Inr sd'"
  by (auto simp: load_state_dict_def split: sum.splits)

lemma rename_key_uncompiled_strip:
  "rename_key False k = (if split_first k = compile_state then drop 10 k else k)"
  by (simp add: rename_key_def)

lemma rename_loop_uncompiled_fold:
  "rename_loop False sd acc =
     Inr (fold (\<lambda>(k, v). AList.update (if split_first k = compile_state then drop 10 k else k) v)
            sd acc)"
proof -
  have "rename_loop False sd acc = Inr (fold (\<lambda>(k, v). AList.update (rename_key False k) v) sd acc)"
    by (rule rename_loop_fold) simp
  then show ?thesis by (simp add: rename_key_uncompiled_strip)
qed

lemma fold_update_renamed:
  assumes "distinct (map f (map fst sd))"
  shows "fold (\<lambda>(k, v). AList.update (f k) v) sd [] = map (\<lambda>(k, v). (f k, v)) sd"
proof -
  have "fold (\<lambda>(k, v). AList.update (f k) v) sd acc =
        fold (\<lambda>(k, v). AList.update k v) (map (\<lambda>(k, v). (f k, v)) sd) acc" for acc
    by (induction sd arbitrary: acc) auto
  moreover have keys: "map fst (map (\<lambda>(k, v). (f k, v)) sd) = map f (map fst sd)"
    by (induction sd) auto
  have "distinct (map fst ([] @ map (\<lambda>(k, v). (f k, v)) sd))"
    unfolding append_Nil keys by (rule assms)
  then have "fold (\<lambda>(k, v). AList.update k v) (map (\<lambda>(k, v). (f k, v)) sd) [] =
             [] @ map (\<lambda>(k, v). (f k, v)) sd"
    by (rule fold_update_distinct)
  ultimately show ?thesis by simp
qed

lemma rename_loop_compiled_fold:
  assumes "\<forall>k\<in>set (map fst sd). split_first k = compile_state"
  shows "rename_loop True sd acc = Inr (fold (\<lambda>(k, v). AList.update k v) sd acc)"
proof -
  have "fold (\<lambda>(k, v). AList.update (rename_key True k) v) sd acc =
        fold (\<lambda>(k, v). AList.update k v) sd acc"
    using assms by (intro fold_cong) (auto simp: rename_key_compiled)
  moreover have "rename_loop True sd acc =
      Inr (fold (\<lambda>(k, v). AList.update (rename_key True k) v) sd acc)"
    using assms by (intro rename_loop_fold) simp
  ultimately show ?thesis by simp
qed

text \<open>Claim C3 (amended). The dictionary the renaming loop produces. Without
  \<open>compile_mode\<close> the loop always returns, and it stores each value under its key
  without the first 10 characters when the first token is the marker, under its key
  otherwise; when these names are distinct the result is the source with the names
  replaced, in order, and the 10 characters removed from a key that begins with the marker
  and a dot are exactly these. With \<open>compile_mode\<close> the loop returns only when every
  first token is the marker, and then keeps every key; when some first token is not the
  marker it raises, so no key is ever given the marker as a prefix.\<close>

theorem rename_loop_result:
  "rename_loop False sd acc =
     Inr (fold (\<lambda>(k, v). AList.update (if split_first k = compile_state then drop 10 k else k) v)
            sd acc) \<and>
   (distinct (map (\<lambda>k. if split_first k = compile_state then drop 10 k else k) (map fst sd)) \<longrightarrow>
      rename_loop False sd [] =
        Inr (map (\<lambda>(k, v). (if split_first k = compile_state then drop 10 k else k, v)) sd)) \<and>
   rename_loop False [(compile_state @ ''.'' @ r, v)] [] = Inr [(r, v)] \<and>
   ((\<forall>k\<in>set (map fst sd). split_first k = compile_state) \<longrightarrow>
      rename_loop True sd acc = Inr (fold (\<lambda>(k, v). AList.update k v) sd acc)) \<and>
   ((\<forall>k\<in>set (map fst sd). split_first k = compile_state) \<and> distinct (map fst sd) \<longrightarrow>
      rename_loop True sd [] = Inr sd) \<and>
   ((\<exists>k\<in>set (map fst sd). split_first k \<noteq> compile_state) \<longrightarrow>
      rename_loop True sd acc = Inl RuntimeError)"
proof -
  note 1 = rename_loop_uncompiled_fold
  have 2: "rename_loop False sd [] =
        Inr (map (\<lambda>(k, v). (if split_first k = compile_state then drop 10 k else k, v)) sd)"
    if "distinct (map (\<lambda>k. if split_first k = compile_state then drop 10 k else k) (map fst sd))"
    using fold_update_renamed[OF that] by (simp add: 1)
  have 3: "rename_loop False [(compile_state @ ''.'' @ r, v)] [] = Inr [(r, v)]"
    by (simp add: rename_key_def split_first_def compile_state_def)
  note 4 = rename_loop_compiled_fold
  have 5: "rename_loop True sd [] = Inr sd"
    if "\<forall>k\<in>set (map fst sd). split_first k = compile_state" "distinct (map fst sd)"
    using 4[OF that(1), of "[]"] fold_update_distinct[of "[]" sd] that(2) by simp
  note 6 = rename_loop_raises
  from 1 2 3 4 5 6 show ?thesis by blast
qed

theorem rename_loop_result_witness:
  "rename_loop False
     [(''_orig_mod.a.w'', \<lparr>shape = [2], entries = [7, 8]\<rparr>), (''b'', \<lparr>shape = [1], entries = [9]\<rparr>)] [] =
     Inr [(''a.w'', \<lparr>shape = [2], entries = [7, 8]\<rparr>), (''b'', \<lparr>shape = [1], entries = [9]\<rparr>)] \<and>
   rename_loop True [(''_orig_mod.a.w'', \<lparr>shape = [2], entries = [7, 8]\<rparr>)] [] =
     Inr [(''_orig_mod.a.w'', \<lparr>shape = [2], entries = [7, 8]\<rparr>)] \<and>
   rename_loop True
     [(''_orig_mod.a.w'', \<lparr>shape = [2], entries = [7, 8]\<rparr>), (''b'', \<lparr>shape = [1], entries = [9]\<rparr>)] [] =
     Inl RuntimeError"
proof -
  define sd :: state_dict where
    "sd = [(''_orig_mod.a.w'', \<lparr>shape = [2], entries = [7, 8]\<rparr>), (''b'', \<lparr>shape = [1], entries = [9]\<rparr>)]"
  define sc :: state_dict where "sc = [(''_orig_mod.a.w'', \<lparr>shape = [2], entries = [7, 8]\<rparr>)]"
  have a: "split_first ''_orig_mod.a.w'' = compile_state" "split_first ''b'' \<noteq> compile_state"
    by (simp_all add: split_first_def compile_state_def)
  note u = rename_loop_result[where sd = sd, THEN conjunct2, THEN conjunct1, THEN mp]
  have 1: "rename_loop False sd [] =
             Inr (map (\<lambda>(k, v). (if split_first k = compile_state then drop 10 k else k, v)) sd)"
    by (rule u) (simp add: sd_def a)
  note c = rename_loop_result[where sd = sc, THEN conjunct2, THEN conjunct2, THEN conjunct2,
      THEN conjunct2, THEN conjunct1, THEN mp]
  have 2: "rename_loop True sc [] = Inr sc"
    by (rule c) (simp add: sc_def a)
  note e = rename_loop_result[where sd = sd and acc = "[]", THEN conjunct2, THEN conjunct2,
      THEN conjunct2, THEN conjunct2, THEN conjunct2, THEN mp]
  have 3: "rename_loop True sd [] = Inl RuntimeError"
    by (rule e) (simp add: sd_def a)
  from 1 2 3 show ?thesis by (simp add: sd_def sc_def a)
qed

text \<open>The claim as stated has the key renamed by prepending the marker when
  \<open>compile_mode\<close> is true and the first token is another: on such a key the loop, and
  with it \<open>load_state_dict\<close>, raises.\<close>

theorem rename_loop_never_prepends:
  "split_first ''a.w'' \<noteq> compile_state \<and>
   rename_loop True [(''a.w'', \<lparr>shape = [2], entries = [7, 8]\<rparr>)] [] = Inl RuntimeError \<and>
   load_state_dict [(''_orig_mod.a.w'', \<lparr>shape = [2], entries = [0, 0]\<rparr>)] True
     [(''a.w'', \<lparr>shape = [2], entries = [7, 8]\<rparr>)] = Inl RuntimeError"
  by (simp add: load_state_dict_def split_first_def compile_state_def)

text \<open>Claim C10. When \<open>load_state_dict\<close> returns with \<open>compile_mode = True\<close>,
  every source key has the marker as first token and is kept as it is, so the renamed
  dictionary is the source; an iteration whose key would select the prepending branch
  raises instead, whatever the rest of the source and the accumulator are.\<close>

theorem load_state_dict_compiled_no_prepend:
  assumes "distinct (map fst sd)"
    and "load_state_dict model True sd = Inr model'"
  shows "(\<forall>k\<in>set (map fst sd). split_first k = compile_state \<and> rename_key True k = k) \<and>
         rename_loop True sd [] = Inr sd \<and>
         (\<forall>k v rest acc. split_first k \<noteq> compile_state \<longrightarrow>
            rename_loop True ((k, v) # rest) acc = Inl RuntimeError)"
proof -
  from assms(2) obtain sd' where "rename_loop True sd [] = Inr sd'"
    by (blast dest: load_state_dict_InrD)
  then have keys: "\<forall>k\<in>set (map fst sd). split_first k = compile_state"
    by (rule rename_loop_compiled_keys)
  have "fold (\<lambda>(k, v). AList.update (rename_key True k) v) sd [] =
        fold (\<lambda>(k, v). AList.update k v) sd []"
    using keys by (intro fold_cong) (auto simp: rename_key_compiled)
  with keys have "rename_loop True sd [] = Inr sd"
    using rename_loop_fold[of sd True "[]"] fold_update_distinct[of "[]" sd] assms(1)
    by simp
  with keys show ?thesis by (simp add: rename_key_compiled)
qed

theorem load_state_dict_compiled_no_prepend_witness:
  "distinct (map fst compiled_source) \<and>
   load_state_dict compiled_model True compiled_source = Inr compiled_source \<and>
   split_first ''_orig_mod.a'' = compile_state \<and>
   rename_key True ''_orig_mod.a'' = ''_orig_mod.a'' \<and>
   rename_loop True compiled_source [] = Inr compiled_source"
proof -
  have d: "distinct (map fst compiled_source)" by (simp add: compiled_source_def)
  have l: "load_state_dict compiled_model True compiled_source = Inr compiled_source"
    by (simp add: load_state_dict_def compiled_model_def compiled_source_def Let_def
      split_first_def compile_state_def rename_key_def keep_matching_def dict_update_def
      module_load_state_dict_def)
  from load_state_dict_compiled_no_prepend[OF d l]
  have "split_first ''_orig_mod.a'' = compile_state \<and>
        rename_key True ''_orig_mod.a'' = ''_orig_mod.a'' \<and>
        rename_loop True compiled_source [] = Inr compiled_source"
    by (simp add: compiled_source_def)
  with d l show ?thesis by blast
qed

section \<open>Properties of \<^verbatim>\<open>save_checkpoint\<close> and of the constructors\<close>

text \<open>Claim C6. The constructor of \<^verbatim>\<open>DecayLR\<close> raises when
  \<open>decay_epochs \<ge> epochs\<close> (so for epochs 10, offset 0 and decay_epochs 10) and returns
  the object with the three fields otherwise.\<close>

theorem DecayLR_init_iff:
  "(epochs' \<le> decay_epochs' \<longrightarrow> DecayLR_init epochs' offset' decay_epochs' = Inl AssertionError) \<and>
   (decay_epochs' < epochs' \<longrightarrow>
      DecayLR_init epochs' offset' decay_epochs' =
        Inr \<lparr>epochs = epochs', offset = offset', decay_epochs = decay_epochs'\<rparr>)"
  by (simp add: DecayLR_init_def)

theorem DecayLR_init_iff_witness:
  "DecayLR_init 10 0 10 = Inl AssertionError \<and> DecayLR_init 10 0 11 = Inl AssertionError \<and>
   DecayLR_init 10 0 9 = Inr \<lparr>epochs = 10, offset = 0, decay_epochs = 9\<rparr>"
  using DecayLR_init_iff[of 10 10 0] DecayLR_init_iff[of 10 11 0] DecayLR_init_iff[of 10 9 0]
  by simp

text \<open>Claim C7. The constructor of \<^verbatim>\<open>ReplayBuffer\<close> raises when
  \<open>max_size \<le> 0\<close> and returns an empty buffer of that capacity otherwise.\<close>

theorem ReplayBuffer_init_iff:
  "(max_size' \<le> 0 \<longrightarrow> (ReplayBuffer_init max_size' :: error + 'a ReplayBuffer) = Inl AssertionError) \<and>
   (0 < max_size' \<longrightarrow>
      (ReplayBuffer_init max_size' :: error + 'a ReplayBuffer) = Inr \<lparr>max_size = max_size', data = []\<rparr>)"
  by (simp add: ReplayBuffer_init_def)

theorem ReplayBuffer_init_iff_witness:
  "(ReplayBuffer_init 0 :: error + nat ReplayBuffer) = Inl AssertionError \<and>
   (ReplayBuffer_init (- 3) :: error + nat ReplayBuffer) = Inl AssertionError \<and>
   (ReplayBuffer_init 50 :: error + nat ReplayBuffer) = Inr \<lparr>max_size = 50, data = []\<rparr>"
  using ReplayBuffer_init_iff[of 0, where ?'a = nat] ReplayBuffer_init_iff[of "- 3", where ?'a = nat]
    ReplayBuffer_init_iff[of 50, where ?'a = nat]
  by simp



lemma run_save:
  "run_calls fs [] (TorchSave obj path # cs) = run_calls (fs(path \<mapsto> obj)) [TorchSave obj path] cs"
  by simp

lemma run_copy:
  assumes "fs src = Some c"
  shows "run_calls fs completed (CopyFile src dst # cs) =
           (if src = dst then (fs, completed, Some SameFileError)
            else run_calls (fs(dst \<mapsto> c)) (completed @ [CopyFile src dst]) cs)"
  using assms by simp





section \<open>Properties of \<^verbatim>\<open>ReplayBuffer.push_and_pop\<close>\<close>

lemma randint_range:
  "a \<le> b \<Longrightarrow> \<exists>i. randint a b g = (Inr i, stl g) \<and> a \<le> i \<and> i \<le> b"
  unfolding randint_def
  by (simp add: pos_mod_sign) (smt (verit) pos_mod_bound)

lemma list_get_in_range:
  "0 \<le> i \<Longrightarrow> i < int (length xs) \<Longrightarrow> list_get xs i = Inr (xs ! nat i)"
  by (simp add: list_get_def list_position_def)

lemma list_set_in_range:
  "0 \<le> i \<Longrightarrow> i < int (length xs) \<Longrightarrow> list_set xs i v = Inr (xs[nat i := v])"
  by (simp add: list_set_def list_position_def)

text \<open>One iteration of the loop on a buffer within its capacity.\<close>

lemma push_and_pop_loop_step:
  assumes pos: "0 < max_size self" and cap: "int (length (data self)) \<le> max_size self"
  shows "\<exists>self1 g1 x.
           push_and_pop_loop self g (sample # rest) to_return =
             push_and_pop_loop self1 g1 rest (to_return @ [x]) \<and>
           max_size self1 = max_size self \<and>
           int (length (data self1)) \<le> max_size self1 \<and>
           (x = unsqueeze sample \<or> x \<in> set (data self)) \<and>
           set (data self1) \<subseteq> insert (unsqueeze sample) (set (data self))"
proof (cases "int (length (data self)) < max_size self")
  case True
  then show ?thesis
    by (intro exI[of _ "self\<lparr>data := data self @ [unsqueeze sample]\<rparr>"] exI[of _ g]
        exI[of _ "unsqueeze sample"]) (auto simp: Let_def)
next
  case full: False
  obtain u g1 where u: "uniform_0_1 g = (u, g1)" by (cases "uniform_0_1 g")
  show ?thesis
  proof (cases "u > 1 / 2")
    case False
    with full u show ?thesis
      using cap by (intro exI[of _ self] exI[of _ g1] exI[of _ "unsqueeze sample"]) (auto simp: Let_def)
  next
    case True
    from pos obtain i where r: "randint 0 (max_size self - 1) g1 = (Inr i, stl g1)"
      and i0: "0 \<le> i" and i1: "i \<le> max_size self - 1"
      using randint_range[of 0 "max_size self - 1" g1] by auto
    from full i1 have ilen: "i < int (length (data self))" by simp
    have len: "nat i < length (data self)" using i0 ilen by simp
    have eq: "push_and_pop_loop self g (sample # rest) to_return =
          push_and_pop_loop (self\<lparr>data := (data self)[nat i := unsqueeze sample]\<rparr>) (stl g1) rest
            (to_return @ [data self ! nat i])"
      using full u True r
      by (simp add: Let_def list_get_in_range[OF i0 ilen] list_set_in_range[OF i0 ilen])
    have "set ((data self)[nat i := unsqueeze sample]) \<subseteq> insert (unsqueeze sample) (set (data self))"
      by (rule set_update_subset_insert)
    with eq cap len show ?thesis
      by (intro exI[of _ "self\<lparr>data := (data self)[nat i := unsqueeze sample]\<rparr>"] exI[of _ "stl g1"]
          exI[of _ "data self ! nat i"]) auto
  qed
qed

lemma push_and_pop_loop_result:
  assumes "0 < max_size self" and "int (length (data self)) \<le> max_size self"
  shows "\<exists>self' g' out.
           push_and_pop_loop self g samples to_return = (self', g', Inr (to_return @ out)) \<and>
           length out = length samples \<and>
           max_size self' = max_size self \<and>
           int (length (data self')) \<le> max_size self' \<and>
           set (data self') \<subseteq> set (data self) \<union> unsqueeze ` set samples \<and>
           (\<forall>j<length samples. out ! j = unsqueeze (samples ! j) \<or>
                out ! j \<in> set (data self) \<union> unsqueeze ` set (take j samples))"
  using assms
proof (induction samples arbitrary: self g to_return)
  case Nil
  then show ?case by simp
next
  case (Cons sample rest)
  from push_and_pop_loop_step[OF Cons.prems, of g sample rest to_return]
  obtain self1 g1 x where
    step: "push_and_pop_loop self g (sample # rest) to_return =
             push_and_pop_loop self1 g1 rest (to_return @ [x])"
    and m1: "max_size self1 = max_size self"
    and c1: "int (length (data self1)) \<le> max_size self1"
    and x: "x = unsqueeze sample \<or> x \<in> set (data self)"
    and d1: "set (data self1) \<subseteq> insert (unsqueeze sample) (set (data self))"
    by blast
  from Cons.prems(1) m1 have p1: "0 < max_size self1" by simp
  from Cons.IH[OF p1 c1, of g1 "to_return @ [x]"]
  obtain self' g' out where
    res: "push_and_pop_loop self1 g1 rest (to_return @ [x]) = (self', g', Inr ((to_return @ [x]) @ out))"
    and len: "length out = length rest"
    and m': "max_size self' = max_size self1"
    and c': "int (length (data self')) \<le> max_size self'"
    and d': "set (data self') \<subseteq> set (data self1) \<union> unsqueeze ` set rest"
    and mem: "\<forall>j<length rest. out ! j = unsqueeze (rest ! j) \<or>
                out ! j \<in> set (data self1) \<union> unsqueeze ` set (take j rest)"
    by blast
  have order: "(x # out) ! j = unsqueeze ((sample # rest) ! j) \<or>
               (x # out) ! j \<in> set (data self) \<union> unsqueeze ` set (take j (sample # rest))"
    if "j < length (sample # rest)" for j
  proof (cases j)
    case 0
    with x show ?thesis by auto
  next
    case (Suc j')
    with that have "j' < length rest" by simp
    with mem have "out ! j' = unsqueeze (rest ! j') \<or>
        out ! j' \<in> set (data self1) \<union> unsqueeze ` set (take j' rest)"
      by blast
    with d1 Suc show ?thesis by auto
  qed
  from d1 d' have stored: "set (data self') \<subseteq> set (data self) \<union> unsqueeze ` set (sample # rest)"
    by auto
  show ?case
    using step res len m' m1 c' order stored
    by (intro exI[of _ self'] exI[of _ g'] exI[of _ "x # out"]) simp
qed

lemma unbind_shape:
  assumes "shape batch = b # s"
  shows "\<exists>samples. unbind batch = Inr samples \<and> length samples = b \<and>
           (\<forall>e\<in>set samples. shape e = s)"
  using assms by (auto simp: unbind_def)

lemma unbind_no_dimension: "shape batch = [] \<Longrightarrow> unbind batch = Inl TypeError"
  by (simp add: unbind_def)

lemma torch_cat_units:
  assumes "ts \<noteq> []" and "\<forall>t\<in>set ts. shape t = 1 # s"
  shows "torch_cat ts = Inr \<lparr>shape = length ts # s, entries = concat (map entries ts)\<rparr>"
proof -
  from assms(2) have f: "filter (\<lambda>t. shape t \<noteq> [0]) ts = ts" by (auto simp: filter_id_conv)
  from assms(1) obtain t ts' where ts: "ts = t # ts'" by (cases ts) auto
  have all: "list_all (\<lambda>u. shape u \<noteq> [] \<and> tl (shape u) = tl (shape t)) ts"
    using assms(2) ts by (auto simp: list_all_iff)
  have "sum_list (map (\<lambda>u. hd (shape u)) ts) = length ts"
    using assms(2) by (induction ts) auto
  moreover have "tl (shape t) = s" using assms(2) ts by simp
  ultimately show ?thesis
    using assms(1) all f unfolding torch_cat_def by (simp add: ts)
qed


lemma push_and_pop_empty:
  assumes "shape batch = 0 # s"
  shows "push_and_pop self g batch = (self, g, Inl RuntimeError)"
  using assms by (simp add: push_and_pop_def unbind_def torch_cat_def)

lemma push_and_pop_no_dimension:
  assumes "shape batch = []"
  shows "push_and_pop self g batch = (self, g, Inl TypeError)"
  using assms by (simp add: push_and_pop_def unbind_def)

lemma push_and_pop_state:
  assumes "0 < max_size self" and "int (length (data self)) \<le> max_size self"
    and "push_and_pop self g batch = (self', g', out)"
  shows "max_size self' = max_size self \<and> int (length (data self')) \<le> max_size self'"
proof (cases "unbind batch")
  case (Inl e)
  with assms show ?thesis by (simp add: push_and_pop_def)
next
  case (Inr samples)
  from push_and_pop_loop_result[OF assms(1,2), of g samples "[]"] Inr assms(3)
  show ?thesis by (auto simp: push_and_pop_def)
qed

lemma reachable_capacity:
  "reachable m self \<Longrightarrow> 0 < m \<and> max_size self = m \<and> int (length (data self)) \<le> m"
proof (induction rule: reachable.induct)
  case (constructed m self)
  then show ?case by (auto simp: ReplayBuffer_init_def split: if_splits)
next
  case (called m self g batch self' g' out)
  then have "0 < max_size self" "int (length (data self)) \<le> max_size self" by simp_all
  from push_and_pop_state[OF this called.hyps(2)] called.IH show ?case by simp
qed

text \<open>Claim C5 (amended). A buffer made by the constructor and passed through any calls of
  \<^verbatim>\<open>push_and_pop\<close>, returning or raising, has a positive capacity and holds at most
  that many samples. On such a buffer, a batch without samples makes \<^verbatim>\<open>push_and_pop\<close>
  raise \<^verbatim>\<open>RuntimeError\<close> and a tensor without dimensions \<^verbatim>\<open>TypeError\<close>, the buffer
  unchanged. On a batch of \<open>b > 0\<close> samples of shape \<open>s\<close>, when every stored sample
  has this shape (with the dimension of size 1 in front), \<^verbatim>\<open>push_and_pop\<close> returns,
  for any random draws, a batch of the shape of the input, so of \<open>b\<close> samples, joined
  from \<open>b\<close> single samples in order: the one at each position is the input's sample at
  that position, or a sample stored before the call or an earlier sample of the input.
  The buffer after the call is within its capacity and its samples have the shape
  again.\<close>

theorem push_and_pop_count_and_capacity:
  assumes "reachable m self"
  shows "0 < m \<and> max_size self = m \<and> int (length (data self)) \<le> m \<and>
         (shape batch = [] \<longrightarrow> push_and_pop self g batch = (self, g, Inl TypeError)) \<and>
         (shape batch = 0 # s \<longrightarrow> push_and_pop self g batch = (self, g, Inl RuntimeError)) \<and>
         (shape batch = b # s \<and> 0 < b \<and> (\<forall>u\<in>set (data self). shape u = 1 # s) \<longrightarrow>
            (\<exists>self' g' samples to_return out.
               unbind batch = Inr samples \<and> length samples = b \<and>
               push_and_pop_loop self g samples [] = (self', g', Inr to_return) \<and>
               length to_return = b \<and>
               (\<forall>j<b. to_return ! j = unsqueeze (samples ! j) \<or>
                       to_return ! j \<in> set (data self) \<union> unsqueeze ` set (take j samples)) \<and>
               push_and_pop self g batch = (self', g', Inr out) \<and>
               shape out = shape batch \<and> entries out = concat (map entries to_return) \<and>
               max_size self' = m \<and> int (length (data self')) \<le> m \<and> reachable m self' \<and>
               (\<forall>u\<in>set (data self'). shape u = 1 # s)))"
proof -
  from reachable_capacity[OF assms]
  have m: "0 < m" and ms: "max_size self = m" and c: "int (length (data self)) \<le> m" by simp_all
  from ms m c have inv: "0 < max_size self" "int (length (data self)) \<le> max_size self" by simp_all
  have main: "\<exists>self' g' samples to_return out.
               unbind batch = Inr samples \<and> length samples = b \<and>
               push_and_pop_loop self g samples [] = (self', g', Inr to_return) \<and>
               length to_return = b \<and>
               (\<forall>j<b. to_return ! j = unsqueeze (samples ! j) \<or>
                       to_return ! j \<in> set (data self) \<union> unsqueeze ` set (take j samples)) \<and>
               push_and_pop self g batch = (self', g', Inr out) \<and>
               shape out = shape batch \<and> entries out = concat (map entries to_return) \<and>
               max_size self' = m \<and> int (length (data self')) \<le> m \<and> reachable m self' \<and>
               (\<forall>u\<in>set (data self'). shape u = 1 # s)"
    if sh: "shape batch = b # s" and b: "0 < b" and st: "\<forall>u\<in>set (data self). shape u = 1 # s"
  proof -
    from unbind_shape[OF sh] obtain samples where
      ub: "unbind batch = Inr samples" and ls: "length samples = b"
      and ss: "\<forall>e\<in>set samples. shape e = s" by blast
    from push_and_pop_loop_result[OF inv, of g samples "[]"]
    obtain self' g' to_return where
      loop: "push_and_pop_loop self g samples [] = (self', g', Inr to_return)"
      and len: "length to_return = length samples"
      and m': "max_size self' = max_size self"
      and c': "int (length (data self')) \<le> max_size self'"
      and d': "set (data self') \<subseteq> set (data self) \<union> unsqueeze ` set samples"
      and mem: "\<forall>j<length samples. to_return ! j = unsqueeze (samples ! j) \<or>
                to_return ! j \<in> set (data self) \<union> unsqueeze ` set (take j samples)"
      by auto
    have us: "shape (unsqueeze e) = 1 # s" if "e \<in> set samples" for e
      using that ss by (simp add: unsqueeze_def)
    have stored: "\<forall>u\<in>set (data self'). shape u = 1 # s"
      using d' st us by auto
    have "shape (to_return ! j) = 1 # s" if "j < length to_return" for j
    proof -
      from that len have j: "j < length samples" by simp
      with mem have "to_return ! j = unsqueeze (samples ! j) \<or>
                to_return ! j \<in> set (data self) \<union> unsqueeze ` set (take j samples)" by blast
      moreover have "samples ! j \<in> set samples" using j by simp
      moreover have "set (take j samples) \<subseteq> set samples" by (rule set_take_subset)
      ultimately show ?thesis using st us by auto
    qed
    then have units: "\<forall>t\<in>set to_return. shape t = 1 # s" by (auto simp: in_set_conv_nth)
    from len ls b have ne: "to_return \<noteq> []" by auto
    define out where "out = \<lparr>shape = length to_return # s, entries = concat (map entries to_return)\<rparr>"
    from torch_cat_units[OF ne units] have cat: "torch_cat to_return = Inr out"
      by (simp add: out_def)
    have pp: "push_and_pop self g batch = (self', g', Inr out)"
      by (simp add: push_and_pop_def ub loop cat)
    from assms pp have r': "reachable m self'" by (rule reachable.called)
    have "shape out = shape batch" by (simp add: out_def len ls sh)
    moreover have "entries out = concat (map entries to_return)" by (simp add: out_def)
    ultimately show ?thesis
      using ub ls loop len mem pp m' c' ms r' stored by auto
  qed
  from m ms c main push_and_pop_empty[of batch s self g] push_and_pop_no_dimension[of batch self g]
  show ?thesis by blast
qed

theorem push_and_pop_count_and_capacity_witness:
  "reachable 2 \<lparr>max_size = 2, data = []\<rparr> \<and>
   (\<exists>self' g' out.
      push_and_pop \<lparr>max_size = 2, data = []\<rparr> (sconst (2 ^ 53 - 1))
        \<lparr>shape = [5, 1], entries = [1, 2, 3, 4, 5]\<rparr> = (self', g', Inr out) \<and>
      shape out = [5, 1] \<and> int (length (data self')) \<le> 2 \<and> reachable 2 self')"
proof -
  have "(ReplayBuffer_init 2 :: error + tensor ReplayBuffer) = Inr \<lparr>max_size = 2, data = []\<rparr>"
    by (simp add: ReplayBuffer_init_def)
  then have r: "reachable 2 \<lparr>max_size = 2, data = []\<rparr>"
    by (rule reachable.constructed)
  note inst = push_and_pop_count_and_capacity[OF r,
      where batch = "\<lparr>shape = [5, 1], entries = [1, 2, 3, 4, 5]\<rparr>" and b = 5 and s = "[1]"
        and g = "sconst (2 ^ 53 - 1)",
      THEN conjunct2, THEN conjunct2, THEN conjunct2, THEN conjunct2, THEN conjunct2, THEN mp]
  have "\<exists>self' g' samples to_return out.
          unbind \<lparr>shape = [5, 1], entries = [1, 2, 3, 4, 5]\<rparr> = Inr samples \<and> length samples = 5 \<and>
          push_and_pop_loop \<lparr>max_size = 2, data = []\<rparr> (sconst (2 ^ 53 - 1)) samples [] =
            (self', g', Inr to_return) \<and>
          length to_return = 5 \<and>
          (\<forall>j<5. to_return ! j = unsqueeze (samples ! j) \<or>
                  to_return ! j \<in> set (data \<lparr>max_size = 2, data = []\<rparr>) \<union>
                    unsqueeze ` set (take j samples)) \<and>
          push_and_pop \<lparr>max_size = 2, data = []\<rparr> (sconst (2 ^ 53 - 1))
            \<lparr>shape = [5, 1], entries = [1, 2, 3, 4, 5]\<rparr> = (self', g', Inr out) \<and>
          shape out = shape \<lparr>shape = [5, 1], entries = [1, 2, 3, 4, 5]\<rparr> \<and>
          entries out = concat (map entries to_return) \<and>
          max_size self' = 2 \<and> int (length (data self')) \<le> 2 \<and> reachable 2 self' \<and>
          (\<forall>u\<in>set (data self'). shape u = 1 # [1])"
    by (rule inst) simp
  then have "\<exists>self' g' out.
      push_and_pop \<lparr>max_size = 2, data = []\<rparr> (sconst (2 ^ 53 - 1))
        \<lparr>shape = [5, 1], entries = [1, 2, 3, 4, 5]\<rparr> = (self', g', Inr out) \<and>
      shape out = [5, 1] \<and> int (length (data self')) \<le> 2 \<and> reachable 2 self'"
    by auto
  with r show ?thesis by (intro conjI)
qed

text \<open>The claim as stated covers every batch: a batch without samples raises, and so
  does a batch of two samples of shape \<open>[2]\<close> given to a buffer of capacity 1 that holds
  a sample of shape \<open>[3]\<close> from an earlier call, when the stored sample is swapped
  out.\<close>

theorem push_and_pop_raises:
  "(ReplayBuffer_init 1 :: error + tensor ReplayBuffer) = Inr \<lparr>max_size = 1, data = []\<rparr> \<and>
   push_and_pop \<lparr>max_size = 1, data = []\<rparr> (sconst (2 ^ 53 - 1)) \<lparr>shape = [0, 3], entries = []\<rparr> =
     (\<lparr>max_size = 1, data = []\<rparr>, sconst (2 ^ 53 - 1), Inl RuntimeError) \<and>
   push_and_pop \<lparr>max_size = 1, data = []\<rparr> (sconst (2 ^ 53 - 1)) \<lparr>shape = [1, 3], entries = [1, 2, 3]\<rparr> =
     (\<lparr>max_size = 1, data = [\<lparr>shape = [1, 3], entries = [1, 2, 3]\<rparr>]\<rparr>, sconst (2 ^ 53 - 1),
      Inr \<lparr>shape = [1, 3], entries = [1, 2, 3]\<rparr>) \<and>
   push_and_pop \<lparr>max_size = 1, data = [\<lparr>shape = [1, 3], entries = [1, 2, 3]\<rparr>]\<rparr> (sconst (2 ^ 53 - 1))
       \<lparr>shape = [2, 2], entries = [4, 5, 6, 7]\<rparr> =
     (\<lparr>max_size = 1, data = [\<lparr>shape = [1, 2], entries = [6, 7]\<rparr>]\<rparr>, sconst (2 ^ 53 - 1),
      Inl RuntimeError)"
  by (simp add: ReplayBuffer_init_def push_and_pop_def unbind_def unsqueeze_def torch_cat_def
      uniform_0_1_def randint_def list_get_def list_set_def list_position_def Let_def upt_rec)

section \<open>Properties of the rounding to floating-point numbers\<close>


lemma round_half_even_of_int: "round_half_even (of_int k) = k"
  by (simp add: round_half_even_def)

lemma ilog2_lower:
  assumes "0 < x"
  shows "2 powi (ilog2 x) \<le> x"
proof -
  obtain p q where pq: "quotient_of x = (p, q)" by (cases "quotient_of x")
  then have q: "0 < q" and x: "x = of_int p / of_int q"
    by (auto dest: quotient_of_denom_pos quotient_of_div)
  with assms have p: "0 < p" by (simp add: zero_less_divide_iff)
  define lp lq where "lp = nat (bitlen p - 1)" and "lq = nat (bitlen q)"
  have bp: "bitlen p - 1 = int lp" and bq: "bitlen q = int lq"
    using p q bitlen_nonneg[of q] by (auto simp: lp_def lq_def bitlen_def floorlog_def)
  from bitlen_bounds[OF p] have "2 ^ lp \<le> p" by (simp add: lp_def)
  then have 1: "(2::rat) ^ lp \<le> of_int p" by (metis of_int_le_iff of_int_numeral of_int_power)
  from bitlen_bounds[OF q] have "q < 2 ^ lq" by (simp add: lq_def)
  then have 2: "of_int q < (2::rat) ^ lq" by (metis of_int_less_iff of_int_numeral of_int_power)
  have "(2::rat) powi (bitlen p - bitlen q - 1) = 2 ^ lp / 2 ^ lq"
  proof -
    have "bitlen p - bitlen q - 1 = int lp - int lq" using bp bq by simp
    then show ?thesis by (simp add: power_int_diff)
  qed
  also have "\<dots> \<le> of_int p / of_int q"
    using 1 2 q p by (intro frac_le) auto
  finally have low: "(2::rat) powi (bitlen p - bitlen q - 1) \<le> x" by (simp add: x)
  show ?thesis
    using low by (simp add: ilog2_def pq Let_def)
qed

lemma ilog2_upper:
  assumes "0 < x"
  shows "x < 2 powi (ilog2 x + 1)"
proof -
  obtain p q where pq: "quotient_of x = (p, q)" by (cases "quotient_of x")
  then have q: "0 < q" and x: "x = of_int p / of_int q"
    by (auto dest: quotient_of_denom_pos quotient_of_div)
  with assms have p: "0 < p" by (simp add: zero_less_divide_iff)
  define lp lq where "lp = nat (bitlen p)" and "lq = nat (bitlen q - 1)"
  have bp: "bitlen p = int lp" and bq: "bitlen q - 1 = int lq"
    using p q bitlen_nonneg[of p] by (auto simp: lp_def lq_def bitlen_def floorlog_def)
  from bitlen_bounds[OF p] have "p < 2 ^ lp" by (simp add: lp_def)
  then have 1: "of_int p < (2::rat) ^ lp" by (metis of_int_less_iff of_int_numeral of_int_power)
  from bitlen_bounds[OF q] have "2 ^ lq \<le> q" by (simp add: lq_def)
  then have 2: "(2::rat) ^ lq \<le> of_int q" by (metis of_int_le_iff of_int_numeral of_int_power)
  have "of_int p / of_int q < (2::rat) ^ lp / 2 ^ lq"
    using 1 2 q p by (intro frac_less) auto
  also have "\<dots> = 2 powi (bitlen p - bitlen q + 1)"
  proof -
    have "bitlen p - bitlen q + 1 = int lp - int lq" using bp bq by simp
    then show ?thesis by (simp add: power_int_diff)
  qed
  finally have up: "x < 2 powi (bitlen p - bitlen q + 1)" by (simp add: x)
  show ?thesis
    using up by (auto simp: ilog2_def pq Let_def not_le)
qed

lemma ulp_pos: "0 < ulp x"
  by (simp add: ulp_def)





lemma round_half_even_mono:
  assumes "s \<le> t"
  shows "round_half_even s \<le> round_half_even t"
proof (cases "\<lfloor>s\<rfloor> = \<lfloor>t\<rfloor>")
  case True
  with assms show ?thesis by (auto simp: round_half_even_def Let_def)
next
  case False
  with assms have "\<lfloor>s\<rfloor> + 1 \<le> \<lfloor>t\<rfloor>" using floor_mono[OF assms] by linarith
  moreover have "round_half_even s \<le> \<lfloor>s\<rfloor> + 1" by (auto simp: round_half_even_def Let_def)
  moreover have "\<lfloor>t\<rfloor> \<le> round_half_even t" by (auto simp: round_half_even_def Let_def)
  ultimately show ?thesis by linarith
qed

lemma round_half_even_minus: "round_half_even (- t) = - round_half_even t"
proof (cases "t \<in> \<int>")
  case True
  then obtain k where "t = of_int k" by (auto elim: Ints_cases)
  then show ?thesis using round_half_even_of_int[of "- k"] round_half_even_of_int[of k] by simp
next
  case False
  then have "t \<noteq> of_int \<lfloor>t\<rfloor>" by (metis Ints_of_int)
  then have lt: "of_int \<lfloor>t\<rfloor> < t" using of_int_floor_le[of t] by linarith
  have ut: "t < of_int \<lfloor>t\<rfloor> + 1" by linarith
  have f: "\<lfloor>- t\<rfloor> = - \<lfloor>t\<rfloor> - 1"
    using lt ut by (intro floor_unique) simp_all
  show ?thesis
    using f lt ut by (auto simp: round_half_even_def Let_def)
qed

lemma powi_le_imp_le: "(2::rat) powi a \<le> 2 powi b \<Longrightarrow> a \<le> b"
  using power_int_strict_increasing[of b a "2::rat"] by (cases "a \<le> b") auto

text \<open>A number \<open>k * 2\<^sup>j\<close> with at most 53 bits in \<open>k\<close> and \<open>j\<close> not below the least
  exponent is a float: rounding keeps it.\<close>

lemma round_double_dyadic:
  assumes "\<bar>k\<bar> \<le> 2 ^ 53" and "- 1074 \<le> j"
  shows "round_double (of_int k * 2 powi j) = of_int k * 2 powi j"
proof (cases "k = 0")
  case True
  then show ?thesis by (simp add: round_double_def)
next
  case False
  define x :: rat where "x = of_int k * 2 powi j"
  define jx where "jx = max (ilog2 \<bar>x\<bar>) (- 1022) - 52"
  have x0: "x \<noteq> 0" "0 < \<bar>x\<bar>" using False by (simp_all add: x_def)
  have ax: "\<bar>x\<bar> = of_int \<bar>k\<bar> * 2 powi j" by (simp add: x_def abs_mult)
  have low: "2 powi (ilog2 \<bar>x\<bar>) \<le> \<bar>x\<bar>" by (rule ilog2_lower[OF x0(2)])
  have "(of_int \<bar>k\<bar> :: rat) \<le> of_int (2 ^ 53)" using assms(1) by (simp only: of_int_le_iff)
  then have "(of_int \<bar>k\<bar> :: rat) \<le> 2 powi 53" by simp
  then have "\<bar>x\<bar> \<le> 2 powi 53 * 2 powi j" unfolding ax by (intro mult_right_mono) simp_all
  also have "\<dots> = 2 powi (53 + j)" by (simp add: power_int_add)
  finally have up: "\<bar>x\<bar> \<le> 2 powi (53 + j)" .
  from low up have "(2::rat) powi (ilog2 \<bar>x\<bar>) \<le> 2 powi (53 + j)" by simp
  then have e: "ilog2 \<bar>x\<bar> \<le> 53 + j" by (rule powi_le_imp_le)
  with assms(2) have jx: "jx \<le> j + 1" by (simp add: jx_def)
  have u: "ulp x = 2 powi jx" by (simp add: ulp_def jx_def)
  have "\<exists>i. x / 2 powi jx = of_int i"
  proof (cases "jx \<le> j")
    case True
    have "x / 2 powi jx = of_int k * 2 powi (j - jx)" by (simp add: x_def power_int_diff)
    also have "\<dots> = of_int k * 2 powi (int (nat (j - jx)))" using True by simp
    also have "\<dots> = of_int (k * 2 ^ nat (j - jx))" by (simp only: power_int_of_nat) simp
    finally show ?thesis by blast
  next
    case False
    with jx have j1: "jx = j + 1" by simp
    with assms(2) e have "ilog2 \<bar>x\<bar> = 53 + j" by (simp add: jx_def max_def split: if_splits)
    with low up have "\<bar>x\<bar> = 2 powi (53 + j)" by simp
    then have "\<bar>x\<bar> / 2 powi jx = 2 powi (53 + j - jx)" by (simp add: power_int_diff)
    also have "\<dots> = 2 ^ 52" by (simp add: j1)
    finally have "\<bar>x / 2 powi jx\<bar> = 2 ^ 52" by (simp add: abs_divide)
    then have "x / 2 powi jx = 2 ^ 52 \<or> x / 2 powi jx = - (2 ^ 52)" by linarith
    then show ?thesis by (metis of_int_minus of_int_numeral of_int_power)
  qed
  then obtain i where i: "x / 2 powi jx = of_int i" ..
  have "round_double x = of_int (round_half_even (of_int i)) * 2 powi jx"
    using x0 by (simp add: round_double_def u i)
  also have "\<dots> = x / 2 powi jx * 2 powi jx" by (simp add: round_half_even_of_int i)
  also have "\<dots> = x" by simp
  finally show ?thesis by (simp add: x_def)
qed

lemma round_double_of_int:
  assumes "\<bar>k\<bar> \<le> 2 ^ 53"
  shows "round_double (of_int k) = of_int k"
  using round_double_dyadic[OF assms, of 0] by simp




lemma powi_less_imp_less: "(2::rat) powi a < 2 powi b \<Longrightarrow> a < b"
  using power_int_increasing[of b a "2::rat"] by (cases "a < b") auto

lemma ilog2_mono:
  assumes "0 < x" and "x \<le> y"
  shows "ilog2 x \<le> ilog2 y"
proof -
  from assms have y: "0 < y" by simp
  have "2 powi (ilog2 x) \<le> x" by (rule ilog2_lower[OF assms(1)])
  also note assms(2)
  also have "y < 2 powi (ilog2 y + 1)" by (rule ilog2_upper[OF y])
  finally have "ilog2 x < ilog2 y + 1" by (rule powi_less_imp_less)
  then show ?thesis by simp
qed

lemma round_half_even_zero: "round_half_even 0 = 0"
  using round_half_even_of_int[of 0] by simp

lemma round_double_nonneg:
  assumes "0 \<le> x"
  shows "0 \<le> round_double x"
proof -
  have "0 \<le> x / ulp x" using assms ulp_pos[of x] by simp
  from round_half_even_mono[OF this] have "0 \<le> round_half_even (x / ulp x)"
    by (simp add: round_half_even_zero)
  then show ?thesis using ulp_pos[of x] by (simp add: round_double_def)
qed

lemma ulp_minus: "ulp (- x) = ulp x"
  by (simp add: ulp_def)

lemma round_double_minus: "round_double (- x) = - round_double x"
  by (simp add: round_double_def ulp_minus round_half_even_minus)

lemma round_double_mono_pos:
  assumes x: "0 < x" and xy: "x \<le> y"
  shows "round_double x \<le> round_double y"
proof -
  from x xy have y: "0 < y" by simp
  define jx where "jx = max (ilog2 x) (- 1022) - 52"
  define jy where "jy = max (ilog2 y) (- 1022) - 52"
  have ux: "ulp x = 2 powi jx" using x by (simp add: ulp_def jx_def)
  have uy: "ulp y = 2 powi jy" using y by (simp add: ulp_def jy_def)
  have rx: "round_double x = of_int (round_half_even (x / 2 powi jx)) * 2 powi jx"
    using x by (simp add: round_double_def ux)
  have ry: "round_double y = of_int (round_half_even (y / 2 powi jy)) * 2 powi jy"
    using y by (simp add: round_double_def uy)
  have le: "ilog2 x \<le> ilog2 y" by (rule ilog2_mono[OF x xy])
  then have j: "jx \<le> jy" by (simp add: jx_def jy_def)
  show ?thesis
  proof (cases "jx = jy")
    case True
    have "x / 2 powi jy \<le> y / 2 powi jy" using xy by (simp add: divide_right_mono)
    from round_half_even_mono[OF this] show ?thesis
      by (simp add: rx ry True mult_right_mono)
  next
    case False
    with j have lt: "jx < jy" by simp
    then have ey: "jy = ilog2 y - 52" and exy: "ilog2 x < ilog2 y"
      by (auto simp: jx_def jy_def max_def split: if_splits)
    define B :: rat where "B = 2 powi (ilog2 y)"
    have "x < 2 powi (ilog2 x + 1)" by (rule ilog2_upper[OF x])
    also have "\<dots> \<le> B" unfolding B_def using exy by (intro power_int_increasing) simp_all
    finally have xB: "x \<le> B" by simp
    have By: "B \<le> y" unfolding B_def by (rule ilog2_lower[OF y])
    \<comment> \<open>the upper number rounds to at least \<open>B\<close>\<close>
    have "B / 2 powi jy = 2 powi (ilog2 y - jy)" by (simp add: B_def power_int_diff)
    also have "\<dots> = of_int (2 ^ 52)" by (simp add: ey)
    finally have Bj: "B / 2 powi jy = of_int (2 ^ 52)" .
    have "B / 2 powi jy \<le> y / 2 powi jy" using By by (simp add: divide_right_mono)
    from round_half_even_mono[OF this]
    have "2 ^ 52 \<le> round_half_even (y / 2 powi jy)"
      by (simp only: Bj round_half_even_of_int)
    then have "of_int (2 ^ 52) \<le> (of_int (round_half_even (y / 2 powi jy)) :: rat)"
      by (simp only: of_int_le_iff)
    then have "of_int (2 ^ 52) * 2 powi jy \<le> round_double y"
      unfolding ry by (intro mult_right_mono) simp_all
    moreover have "of_int (2 ^ 52) * 2 powi jy = B"
      using Bj by (simp add: field_simps)
    ultimately have low: "B \<le> round_double y" by simp
    \<comment> \<open>the lower number rounds to at most \<open>B\<close>\<close>
    define k where "k = nat (ilog2 y - jx)"
    have kpos: "0 \<le> ilog2 y - jx" using lt ey by simp
    have "B / 2 powi jx = 2 powi (ilog2 y - jx)" by (simp add: B_def power_int_diff)
    also have "\<dots> = 2 powi (int k)" using kpos by (simp add: k_def)
    also have "\<dots> = of_int (2 ^ k)" by (simp add: power_int_of_nat)
    finally have Bx: "B / 2 powi jx = of_int (2 ^ k)" .
    have "x / 2 powi jx \<le> B / 2 powi jx" using xB by (simp add: divide_right_mono)
    from round_half_even_mono[OF this]
    have "round_half_even (x / 2 powi jx) \<le> 2 ^ k"
      by (simp only: Bx round_half_even_of_int)
    then have "(of_int (round_half_even (x / 2 powi jx)) :: rat) \<le> of_int (2 ^ k)"
      by (simp only: of_int_le_iff)
    then have "round_double x \<le> of_int (2 ^ k) * 2 powi jx"
      unfolding rx by (intro mult_right_mono) simp_all
    moreover have "of_int (2 ^ k) * 2 powi jx = B"
      using Bx by (simp add: field_simps)
    ultimately have "round_double x \<le> B" by simp
    with low show ?thesis by simp
  qed
qed

lemma round_double_mono:
  assumes "x \<le> y"
  shows "round_double x \<le> round_double y"
proof -
  consider "0 < x" | "x \<le> 0" "0 \<le> y" | "y < 0" by linarith
  then show ?thesis
  proof cases
    case 1
    then show ?thesis using assms by (rule round_double_mono_pos)
  next
    case 2
    then have "0 \<le> round_double y" "0 \<le> round_double (- x)"
      by (simp_all add: round_double_nonneg)
    then show ?thesis by (simp add: round_double_minus)
  next
    case 3
    then have "0 < - y" "- y \<le> - x" using assms by simp_all
    from round_double_mono_pos[OF this] show ?thesis by (simp add: round_double_minus)
  qed
qed

text \<open>The rounding on numbers whose floats are known: one tenth, one third, and two
  ties.\<close>

lemma round_double_examples:
  "round_double (1 / 10) = 3602879701896397 / 2 ^ 55"
  "round_double (1 / 3) = 6004799503160661 / 2 ^ 54"
  "round_double (2 ^ 53 + 1) = 2 ^ 53"
  "round_double (2 ^ 53 + 3) = 2 ^ 53 + 4"
  by code_simp+

subsection \<open>The range of the finite numbers\<close>


lemma round_double_max: "round_double max_double = max_double"
proof -
  have "max_double = of_int (2 ^ 53 - 1) * 2 powi 971"
    unfolding max_double_def by (simp del: power_numeral)
  moreover have "round_double (of_int (2 ^ 53 - 1) * 2 powi 971) = of_int (2 ^ 53 - 1) * 2 powi 971"
    by (rule round_double_dyadic) simp_all
  ultimately show ?thesis by simp
qed



text \<open>The difference \<^verbatim>\<open>1.0 - q\<close> is in range for every \<open>q\<close> in range that is not
  negative.\<close>

lemma float_sub_one_in_range:
  assumes "0 \<le> q" and "q \<le> max_double"
  shows "- max_double \<le> float_sub 1 q \<and> float_sub 1 q \<le> 1"
proof -
  have "round_double (1 - q) \<le> round_double 1" using assms(1) by (intro round_double_mono) simp
  moreover have "round_double (- max_double) \<le> round_double (1 - q)"
    using assms(2) by (intro round_double_mono) simp
  moreover have "round_double 1 = 1" using round_double_of_int[of 1] by simp
  ultimately show ?thesis by (simp add: float_sub_def round_double_minus round_double_max)
qed

section \<open>Properties of \<^verbatim>\<open>DecayLR.step\<close>\<close>




text \<open>The quotient of \<open>step\<close>, before it is rounded.\<close>

lemma step_unfold:
  assumes "decay_epochs self < epochs self"
  shows "step self epoch =
           (if max_double < \<bar>round_double (of_int (max 0 (epoch + offset self - decay_epochs self)) /
                                          of_int (epochs self - decay_epochs self))\<bar>
            then Inl OverflowError
            else Inr (float_sub 1
                   (round_double (of_int (max 0 (epoch + offset self - decay_epochs self)) /
                                  of_int (epochs self - decay_epochs self)))))"
  using assms by (simp add: step_def true_divide_def Let_def)




text \<open>What \<open>step\<close> returns is a finite float, between \<open>- max_double\<close> and 1.\<close>

lemma step_in_range:
  assumes v: "decay_epochs self < epochs self" and s: "step self epoch = Inr a"
  shows "- max_double \<le> a \<and> a \<le> 1"
proof -
  define x :: rat where "x = of_int (max 0 (epoch + offset self - decay_epochs self)) /
                             of_int (epochs self - decay_epochs self)"
  have "0 \<le> x" using v by (simp add: x_def)
  then have q0: "0 \<le> round_double x" by (rule round_double_nonneg)
  from s have fin: "\<not> max_double < \<bar>round_double x\<bar>" and a: "a = float_sub 1 (round_double x)"
    by (auto simp: step_unfold[OF v] x_def split: if_splits)
  from fin q0 have "round_double x \<le> max_double" by linarith
  from float_sub_one_in_range[OF q0 this] a show ?thesis by simp
qed












section \<open>Properties of \<^verbatim>\<open>AverageMeter.update\<close>\<close>



























end
